theory Spec2Isabelle
  imports Main "HOL-Library.Multiset"
begin

section \<open>Entities of \<^verbatim>\<open>mltrace.db\<close>\<close>

text \<open>
  \<^verbatim>\<open>store.py\<close> works on the ORM classes \<^verbatim>\<open>Component\<close>, \<^verbatim>\<open>ComponentRun\<close>,
  \<^verbatim>\<open>IOPointer\<close>, \<^verbatim>\<open>Tag\<close> and the enumeration \<^verbatim>\<open>PointerTypeEnum\<close>. Each class is a
  record with the attributes the store reads and writes. A \<^verbatim>\<open>datetime\<close> is a point of a
  linear order, taken as a natural number of clock ticks.
\<close>

type_synonym timestamp = nat

text \<open>
  Modelled from the spec: the declaration of \<^verbatim>\<open>PointerTypeEnum\<close> is not part of
  \<^verbatim>\<open>store.py\<close>. The spec lists file-backed types, a database-table type and the
  sequence-generated endpoint type; \<^verbatim>\<open>store.py\<close> names only \<^verbatim>\<open>ENDPOINT\<close>.
\<close>

datatype PointerTypeEnum = FILE | TABLE | ENDPOINT

record Tag =
  tag_name :: string

record IOPointer =
  iop_name :: string
  pointer_type :: PointerTypeEnum

record Component =
  comp_name :: string
  description :: string
  owner :: string
  tags :: "Tag list"

text \<open>
  A run refers to its dependencies as the dependency association table does: by the
  identities of persisted runs. \<open>run_id\<close> is \<open>None\<close> until the run is committed.
\<close>

record ComponentRun =
  run_id :: "nat option"
  component_name :: string
  start_timestamp :: "timestamp option"
  end_timestamp :: "timestamp option"
  inputs :: "IOPointer list"
  outputs :: "IOPointer list"
  dependencies :: "nat list"

text \<open>
  The database behind the session: one list of rows per table, in the order of insertion,
  and the sequence that numbers the runs.
\<close>

record Store =
  components :: "Component list"
  tag_table :: "Tag list"
  io_pointers :: "IOPointer list"
  component_runs :: "ComponentRun list"
  next_run_id :: nat

definition empty_store :: Store where
  "empty_store = \<lparr>components = [], tag_table = [], io_pointers = [],
     component_runs = [], next_run_id = 1\<rparr>"

text \<open>Exceptions are values; a method returns its result, or the exception, and the store.\<close>

datatype error =
  TypeError string
  | AttributeError string
  | ValueError string
  | IntegrityError string
  | DataError string

type_synonym 'a result = "error + 'a"

section \<open>Python's \<^verbatim>\<open>int(str)\<close> and \<^verbatim>\<open>str(int)\<close>\<close>

definition is_digit :: "char \<Rightarrow> bool" where
  "is_digit c = (c \<in> set ''0123456789'')"

definition is_space :: "char \<Rightarrow> bool" where
  "is_space c = (c \<in> set [CHR '' '', CHR 0x09, CHR 0x0A, CHR 0x0B, CHR 0x0C, CHR 0x0D])"

definition digit_val :: "char \<Rightarrow> nat" where
  "digit_val c = of_char c - 48"

definition digits_val :: "string \<Rightarrow> nat" where
  "digits_val s = foldl (\<lambda>a c. 10 * a + digit_val c) 0 s"

text \<open>
  The digits of a literal may be grouped by single underscores, each between two digits.
\<close>

fun grouped_digits :: "string \<Rightarrow> bool" where
  "grouped_digits [] = False"
| "grouped_digits [c] = is_digit c"
| "grouped_digits (c # d # s) =
     (if is_digit c then
        (if d = CHR ''_'' then grouped_digits s else grouped_digits (d # s))
      else False)"

definition strip :: "string \<Rightarrow> string" where
  "strip s = rev (dropWhile is_space (rev (dropWhile is_space s)))"

definition int_of_body :: "string \<Rightarrow> nat result" where
  "int_of_body s =
     (if grouped_digits s then Inr (digits_val (filter (\<lambda>c. c \<noteq> CHR ''_'') s))
      else Inl (ValueError ''invalid literal for int() with base 10''))"

definition py_int :: "string \<Rightarrow> int result" where
  "py_int s =
     (case strip s of
        [] \<Rightarrow> Inl (ValueError ''invalid literal for int() with base 10'')
      | c # t \<Rightarrow>
          if c = CHR ''-'' then
            (case int_of_body t of Inl e \<Rightarrow> Inl e | Inr n \<Rightarrow> Inr (- int n))
          else if c = CHR ''+'' then
            (case int_of_body t of Inl e \<Rightarrow> Inl e | Inr n \<Rightarrow> Inr (int n))
          else
            (case int_of_body (c # t) of Inl e \<Rightarrow> Inl e | Inr n \<Rightarrow> Inr (int n)))"

definition digit_char :: "nat \<Rightarrow> char" where
  "digit_char n = ''0123456789'' ! n"

fun str_nat :: "nat \<Rightarrow> string" where
  "str_nat n = (if n < 10 then [digit_char n] else str_nat (n div 10) @ [digit_char (n mod 10)])"

definition py_str :: "int \<Rightarrow> string" where
  "py_str i = (if i < 0 then CHR ''-'' # str_nat (nat (- i)) else str_nat (nat i))"

text \<open>\<^verbatim>\<open>range(a, b)\<close> over Python's integers.\<close>

definition py_range :: "int \<Rightarrow> int \<Rightarrow> int list" where
  "py_range a b = [a .. b - 1]"

section \<open>The store's methods\<close>

text \<open>
  A method takes the store and returns what the call returns (or the exception it raises)
  together with the store after the call. Log output is not modelled.
\<close>

text \<open>
  \<^verbatim>\<open>raise(msg)\<close> with a \<^verbatim>\<open>str\<close> operand (lines 22, 67, 143): Python refuses to raise
  an object that is not an exception and raises this \<^verbatim>\<open>TypeError\<close>, whatever the text.
\<close>

definition raise_str :: "string \<Rightarrow> error" where
  "raise_str msg = TypeError ''exceptions must derive from BaseException''"

subsection \<open>Components and tags\<close>

text \<open>\<^verbatim>\<open>_get_component\<close>: \<^verbatim>\<open>query(Component).filter(name == ...).first()\<close>.\<close>

definition get_component :: "Store \<Rightarrow> string \<Rightarrow> Component option" where
  "get_component st name =
     (case filter (\<lambda>c. comp_name c = name) (components st) of
        [] \<Rightarrow> None
      | c # _ \<Rightarrow> Some c)"

text \<open>
  Modelled from the spec: the table declarations are not part of \<^verbatim>\<open>store.py\<close>. The spec
  makes the name of a Tag its key (``a unique label (string key)''), so inserting a row
  whose name is already stored, or two new rows of one name, violates the key and the
  database rejects the transaction.
\<close>

definition insert_tags :: "Tag list \<Rightarrow> Tag list \<Rightarrow> Tag list result" where
  "insert_tags table new =
     (if distinct (map tag_name new)
         \<and> list_all (\<lambda>t. tag_name t \<notin> set (map tag_name table)) new
      then Inr (table @ new)
      else Inl (IntegrityError ''duplicate key value violates unique constraint''))"

text \<open>
  \<^verbatim>\<open>create_component\<close> (lines 40-55). An existing name returns at once. Otherwise line 51
  builds a new \<^verbatim>\<open>Tag\<close> object for every tag name; \<^verbatim>\<open>session.add(component)\<close> and
  \<^verbatim>\<open>session.commit()\<close> insert the component and, through it, these new tags in one
  transaction.
\<close>

definition create_component ::
  "Store \<Rightarrow> string \<Rightarrow> string \<Rightarrow> string \<Rightarrow> string list \<Rightarrow> unit result \<times> Store" where
  "create_component st name descr ownr tag_names =
     (case get_component st name of
        Some res \<Rightarrow> (Inr (), st)
      | None \<Rightarrow>
          (let new_tags = map (\<lambda>t. \<lparr>tag_name = t\<rparr>) tag_names;
               component = \<lparr>comp_name = name, description = descr, owner = ownr,
                             tags = new_tags\<rparr>
           in case insert_tags (tag_table st) new_tags of
                Inl e \<Rightarrow> (Inl e, st)
              | Inr table \<Rightarrow>
                  (Inr (), st\<lparr>components := components st @ [component],
                               tag_table := table\<rparr>)))"

text \<open>\<^verbatim>\<open>get_tag\<close> (lines 79-92): get-or-create by name.\<close>

definition get_tag :: "Store \<Rightarrow> string \<Rightarrow> Tag result \<times> Store" where
  "get_tag st name =
     (case filter (\<lambda>t. tag_name t = name) (tag_table st) of
        [] \<Rightarrow>
          (let tag = \<lparr>tag_name = name\<rparr>
           in (Inr tag, st\<lparr>tag_table := tag_table st @ [tag]\<rparr>))
      | t # _ \<Rightarrow> (Inr t, st))"

text \<open>The comprehension \<^verbatim>\<open>[self.get_tag(t) for t in tags]\<close> of line 69.\<close>

fun get_tags :: "Store \<Rightarrow> string list \<Rightarrow> Tag list result \<times> Store" where
  "get_tags st [] = (Inr [], st)"
| "get_tags st (n # ns) =
     (case get_tag st n of
        (Inl e, st1) \<Rightarrow> (Inl e, st1)
      | (Inr t, st1) \<Rightarrow>
          (case get_tags st1 ns of
             (Inl e, st2) \<Rightarrow> (Inl e, st2)
           | (Inr ts, st2) \<Rightarrow> (Inr (t # ts), st2)))"

text \<open>
  Modelled from the spec: \<^verbatim>\<open>Component.add_tags\<close> is not part of \<^verbatim>\<open>store.py\<close>. The spec
  gives a component a set of tags: attaching a tag name twice must not create a duplicate.
\<close>

definition add_tags :: "Component \<Rightarrow> Tag list \<Rightarrow> Component" where
  "add_tags c ts = c\<lparr>tags := remdups (tags c @ ts)\<rparr>"

text \<open>\<^verbatim>\<open>add_tags_to_component\<close> (lines 62-71); the first row of that name is updated.\<close>

fun update_component :: "Component list \<Rightarrow> string \<Rightarrow> Component \<Rightarrow> Component list" where
  "update_component [] name c' = []"
| "update_component (c # cs) name c' =
     (if comp_name c = name then c' # cs else c # update_component cs name c')"

definition add_tags_to_component ::
  "Store \<Rightarrow> string \<Rightarrow> string list \<Rightarrow> unit result \<times> Store" where
  "add_tags_to_component st cname tag_names =
     (case get_component st cname of
        None \<Rightarrow> (Inl (raise_str ''Component not found.''), st)
      | Some component \<Rightarrow>
          (case get_tags st tag_names of
             (Inl e, st1) \<Rightarrow> (Inl e, st1)
           | (Inr tag_objects, st1) \<Rightarrow>
               (Inr (), st1\<lparr>components :=
                  update_component (components st1) cname
                    (add_tags component tag_objects)\<rparr>)))"

subsection \<open>IO pointers\<close>

text \<open>
  \<^verbatim>\<open>get_io_pointer\<close> (lines 94-112). \<^verbatim>\<open>_map_extension_to_enum\<close> is an external
  collaborator and a parameter here.
\<close>

definition get_io_pointer ::
  "(string \<Rightarrow> PointerTypeEnum) \<Rightarrow> Store \<Rightarrow> string \<Rightarrow> PointerTypeEnum option
     \<Rightarrow> IOPointer result \<times> Store" where
  "get_io_pointer map_extension_to_enum st name ptype =
     (case filter (\<lambda>p. iop_name p = name) (io_pointers st) of
        [] \<Rightarrow>
          (let pt = (case ptype of None \<Rightarrow> map_extension_to_enum name | Some t \<Rightarrow> t);
               iop = \<lparr>iop_name = name, pointer_type = pt\<rparr>
           in (Inr iop, st\<lparr>io_pointers := io_pointers st @ [iop]\<rparr>))
      | p # _ \<Rightarrow> (Inr p, st))"

text \<open>
  \<^verbatim>\<open>create_output_ids\<close> (lines 129-137). \<^verbatim>\<open>max(res, key=lambda x: int(x.name))\<close> applies
  \<^verbatim>\<open>int\<close> to every name in turn, so the first name that is no integer literal raises;
  of several maximal pointers the first is returned.
\<close>

fun int_keys :: "IOPointer list \<Rightarrow> (int \<times> IOPointer) list result" where
  "int_keys [] = Inr []"
| "int_keys (p # ps) =
     (case py_int (iop_name p) of
        Inl e \<Rightarrow> Inl e
      | Inr k \<Rightarrow> (case int_keys ps of Inl e \<Rightarrow> Inl e | Inr kps \<Rightarrow> Inr ((k, p) # kps)))"

fun max_by_key :: "(int \<times> IOPointer) \<Rightarrow> (int \<times> IOPointer) list \<Rightarrow> (int \<times> IOPointer)" where
  "max_by_key best [] = best"
| "max_by_key best (kp # kps) =
     (if fst kp > fst best then max_by_key kp kps else max_by_key best kps)"

definition start_index :: "IOPointer list \<Rightarrow> int result" where
  "start_index res =
     (if length res = 0 then Inr 0
      else
        (case int_keys res of
           Inl e \<Rightarrow> Inl e
         | Inr [] \<Rightarrow> Inr 0
         | Inr (kp # kps) \<Rightarrow>
             (case py_int (iop_name (snd (max_by_key kp kps))) of
                Inl e \<Rightarrow> Inl e
              | Inr m \<Rightarrow> Inr (m + 1))))"

definition create_output_ids :: "Store \<Rightarrow> int \<Rightarrow> string list result \<times> Store" where
  "create_output_ids st num_outputs =
     (let res = filter (\<lambda>p. pointer_type p = ENDPOINT) (io_pointers st)
      in case start_index res of
           Inl e \<Rightarrow> (Inl e, st)
         | Inr start \<Rightarrow> (Inr (map py_str (py_range start (start + num_outputs))), st))"

subsection \<open>Committing a run\<close>

text \<open>\<^verbatim>\<open>initialize_empty_component_run\<close> (lines 73-77): nothing is set but the name.\<close>

definition initialize_empty_component_run :: "string \<Rightarrow> ComponentRun" where
  "initialize_empty_component_run cname =
     \<lparr>run_id = None, component_name = cname, start_timestamp = None,
      end_timestamp = None, inputs = [], outputs = [], dependencies = []\<rparr>"

record status_dict =
  success :: bool
  msg :: string

text \<open>
  Modelled from the spec: \<^verbatim>\<open>ComponentRun.check_completeness\<close> is not part of
  \<^verbatim>\<open>store.py\<close>. The spec makes a run committable when its start timestamp, its end
  timestamp and at least one output are set, and has the message name what is missing.
\<close>

definition check_completeness :: "ComponentRun \<Rightarrow> status_dict" where
  "check_completeness r =
     \<lparr>success = (start_timestamp r \<noteq> None \<and> end_timestamp r \<noteq> None \<and> outputs r \<noteq> []),
      msg = (if start_timestamp r = None then ''ComponentRun has no start timestamp. '' else [])
          @ (if end_timestamp r = None then ''ComponentRun has no end timestamp. '' else [])
          @ (if outputs r = [] then ''ComponentRun has no outputs. '' else [])\<rparr>"

text \<open>
  \<^verbatim>\<open>session.add(component_run)\<close> reaches the pointers of the run as well: a pointer whose
  name has no row yet is inserted with the run.
\<close>

fun cascade_io_pointers :: "IOPointer list \<Rightarrow> IOPointer list \<Rightarrow> IOPointer list" where
  "cascade_io_pointers table [] = table"
| "cascade_io_pointers table (p # ps) =
     (if iop_name p \<in> set (map iop_name table) then cascade_io_pointers table ps
      else cascade_io_pointers (table @ [p]) ps)"

text \<open>
  \<^verbatim>\<open>commit_component_run\<close> (lines 139-149). The run object receives its identity from the
  database; the committed object is returned here in place of Python's \<^verbatim>\<open>None\<close>. Adding
  a run that is persistent already writes its attributes back to its row.
\<close>

definition commit_component_run ::
  "Store \<Rightarrow> ComponentRun \<Rightarrow> ComponentRun result \<times> Store" where
  "commit_component_run st component_run =
     (let status = check_completeness component_run
      in if \<not> success status then (Inl (raise_str (msg status)), st)
         else
           (let table = cascade_io_pointers (io_pointers st)
                          (inputs component_run @ outputs component_run)
            in case run_id component_run of
                 None \<Rightarrow>
                   (let persisted = component_run\<lparr>run_id := Some (next_run_id st)\<rparr>
                    in (Inr persisted,
                        st\<lparr>io_pointers := table,
                           component_runs := component_runs st @ [persisted],
                           next_run_id := next_run_id st + 1\<rparr>))
               | Some i \<Rightarrow>
                   (Inr component_run,
                    st\<lparr>io_pointers := table,
                       component_runs :=
                         map (\<lambda>r. if run_id r = Some i then component_run else r)
                           (component_runs st)\<rparr>)))"

subsection \<open>Resolving dependencies\<close>

text \<open>
  The rows of lines 156-158: \<^verbatim>\<open>component_runs\<close> joined with the outputs of each run, kept
  where the name of the output is one of \<^verbatim>\<open>input_ids\<close>. There is one row for each pair of
  a run and a matching output; the rows come in the order of the table, which SQL leaves
  open.
\<close>

definition output_matches :: "Store \<Rightarrow> string list \<Rightarrow> (ComponentRun \<times> IOPointer) list" where
  "output_matches st input_ids =
     concat (map (\<lambda>r. map (Pair r) (filter (\<lambda>p. iop_name p \<in> set input_ids) (outputs r)))
               (component_runs st))"

text \<open>
  \<^verbatim>\<open>func.max(ComponentRun.start_timestamp).over(partition_by=ComponentRun.component_name)\<close>
  is a window function: it adds to every row a column, the greatest start timestamp among
  the rows of the same component name, and removes no row.
\<close>

definition partition_max :: "(ComponentRun \<times> IOPointer) list \<Rightarrow> string \<Rightarrow> timestamp option" where
  "partition_max rows cname =
     (case List.map_filter
             (\<lambda>row. if component_name (fst row) = cname then start_timestamp (fst row) else None)
             rows of
        [] \<Rightarrow> None
      | t # ts \<Rightarrow> Some (fold max ts t))"

definition dependency_query ::
  "Store \<Rightarrow> string list \<Rightarrow> (ComponentRun \<times> timestamp option) list" where
  "dependency_query st input_ids =
     (let rows = output_matches st input_ids
      in map (\<lambda>row. (fst row, partition_max rows (component_name (fst row)))) rows)"

text \<open>
  Modelled from the spec: \<^verbatim>\<open>ComponentRun.set_upstream\<close> is not part of \<^verbatim>\<open>store.py\<close>.
  The spec has the resolver set the dependencies of the run to the runs it selected, as a
  set; the runs are persisted ones and are kept by identity.
\<close>

definition set_upstream :: "ComponentRun \<Rightarrow> ComponentRun list \<Rightarrow> ComponentRun" where
  "set_upstream r deps = r\<lparr>dependencies := remdups (List.map_filter run_id deps)\<rparr>"

text \<open>
  \<^verbatim>\<open>set_dependencies_from_inputs\<close> (lines 151-166). Line 159 keeps the first column of
  every row and drops the window column. The run is changed, the store is only read.
\<close>

definition set_dependencies_from_inputs :: "Store \<Rightarrow> ComponentRun \<Rightarrow> ComponentRun" where
  "set_dependencies_from_inputs st component_run =
     (let input_ids = map iop_name (inputs component_run);
          matches = map fst (dependency_query st input_ids)
      in if length matches = 0 then component_run
         else set_upstream component_run matches)"

subsection \<open>Tracing\<close>

text \<open>The runs behind \<^verbatim>\<open>node.dependencies\<close>: the rows of the identities the run lists.\<close>

definition run_dependencies :: "Store \<Rightarrow> ComponentRun \<Rightarrow> ComponentRun list" where
  "run_dependencies st node =
     List.map_filter (\<lambda>i. find (\<lambda>r. run_id r = Some i) (component_runs st))
       (dependencies node)"

text \<open>A \<^verbatim>\<open>for\<close> loop whose body may not return.\<close>

fun for_each :: "('a \<Rightarrow> 's \<Rightarrow> 's option) \<Rightarrow> 'a list \<Rightarrow> 's \<Rightarrow> 's option" where
  "for_each body [] s = Some s"
| "for_each body (x # xs) s =
     (case body x s of None \<Rightarrow> None | Some s' \<Rightarrow> for_each body xs s')"

text \<open>
  \<^verbatim>\<open>_traverse\<close> (lines 168-178). The first argument bounds the depth of the recursion:
  \<open>None\<close> says that the walk needs more nested calls than that. The list \<^verbatim>\<open>node_list\<close>
  is appended to in place and is passed along.
\<close>

primrec traverse ::
  "nat \<Rightarrow> Store \<Rightarrow> ComponentRun \<Rightarrow> int \<Rightarrow> (int \<times> ComponentRun) list
     \<Rightarrow> (int \<times> ComponentRun) list option" where
  "traverse 0 st node depth node_list = None"
| "traverse (Suc fuel) st node depth node_list =
     (let node_list1 = node_list @ [(depth, node)]
      in if length (run_dependencies st node) = 0 then Some node_list1
         else for_each (\<lambda>neighbor nl. traverse fuel st neighbor (depth + 1) nl)
                (run_dependencies st node) node_list1)"

text \<open>
  The query of lines 184-185. \<^verbatim>\<open>joinedload('outputs')\<close> loads the outputs through a join
  of its own, under an alias that the filter cannot refer to; the filter on
  \<^verbatim>\<open>IOPointer.name\<close> therefore brings the table \<^verbatim>\<open>io_pointers\<close> into the query unjoined.
  The rows are the pairs of any run and a pointer of that name, and \<^verbatim>\<open>first()\<close> is the
  run of the first pair, or \<^verbatim>\<open>None\<close> when there is no pair. The query has no
  \<^verbatim>\<open>ORDER BY\<close>, so SQL leaves open which pair comes first; here the tables are read in
  the order of insertion.
\<close>

definition trace_query :: "Store \<Rightarrow> string \<Rightarrow> ComponentRun option" where
  "trace_query st output_id =
     (case concat (map (\<lambda>r. map (Pair r) (filter (\<lambda>p. iop_name p = output_id) (io_pointers st)))
                     (component_runs st)) of
        [] \<Rightarrow> None
      | row # _ \<Rightarrow> Some (fst row))"

text \<open>
  \<^verbatim>\<open>trace\<close> (lines 180-191). With \<^verbatim>\<open>None\<close> for a node, \<^verbatim>\<open>_traverse\<close> appends the pair
  and fails at \<^verbatim>\<open>node.dependencies\<close>.
\<close>

definition trace :: "nat \<Rightarrow> Store \<Rightarrow> string \<Rightarrow> (int \<times> ComponentRun) list result option" where
  "trace fuel st output_id =
     (case trace_query st output_id of
        None \<Rightarrow> Some (Inl (AttributeError ''NoneType object has no attribute dependencies''))
      | Some component_run_object \<Rightarrow>
          map_option Inr (traverse fuel st component_run_object 1 []))"

subsection \<open>History\<close>






section \<open>Notions of the specification and recorded histories\<close>

text \<open>A decimal numeral: one digit or more, and nothing else.\<close>

definition decimal :: "string \<Rightarrow> bool" where
  "decimal s = (s \<noteq> [] \<and> list_all is_digit s)"

text \<open>
  The numbers that the names of the endpoint pointers denote, and the number one past the
  greatest of them (0 when there is none).
\<close>

definition endpoint_numbers :: "Store \<Rightarrow> int list" where
  "endpoint_numbers st =
     map (\<lambda>p. int (digits_val (iop_name p)))
       (filter (\<lambda>p. pointer_type p = ENDPOINT) (io_pointers st))"

definition next_free :: "Store \<Rightarrow> int" where
  "next_free st =
     (if endpoint_numbers st = [] then 0 else Max (set (endpoint_numbers st)) + 1)"

text \<open>A store whose pointers are endpoint pointers of the given names, created in turn.\<close>

definition endpoint_store :: "string list \<Rightarrow> Store" where
  "endpoint_store names =
     foldl (\<lambda>st n. snd (get_io_pointer (\<lambda>_. FILE) st n (Some ENDPOINT))) empty_store names"

text \<open>
  The dependency edges of a store: a persisted run and, for each identity it lists, the
  run that \<^verbatim>\<open>node.dependencies\<close> yields.
\<close>

definition dep_edges :: "Store \<Rightarrow> (ComponentRun \<times> ComponentRun) list" where
  "dep_edges st =
     concat (map (\<lambda>r. map (Pair r) (run_dependencies st r)) (component_runs st))"

text \<open>
  How a caller records a run: fill in the empty run, resolve its dependencies from the
  history, commit.
\<close>

definition iop :: "string \<Rightarrow> IOPointer" where
  "iop n = \<lparr>iop_name = n, pointer_type = FILE\<rparr>"

definition new_run ::
  "string \<Rightarrow> timestamp \<Rightarrow> timestamp \<Rightarrow> IOPointer list \<Rightarrow> IOPointer list \<Rightarrow> ComponentRun" where
  "new_run cname t0 t1 ins outs =
     (initialize_empty_component_run cname)
       \<lparr>start_timestamp := Some t0, end_timestamp := Some t1, inputs := ins, outputs := outs\<rparr>"

definition log_run ::
  "Store \<Rightarrow> string \<Rightarrow> timestamp \<Rightarrow> timestamp \<Rightarrow> IOPointer list \<Rightarrow> IOPointer list \<Rightarrow> Store" where
  "log_run st cname t0 t1 ins outs =
     snd (commit_component_run st
            (set_dependencies_from_inputs st (new_run cname t0 t1 ins outs)))"

text \<open>
  The computation of the test suite (\<^verbatim>\<open>_set_up_computation\<close>): runs 1 and 2 produce
  \<^verbatim>\<open>iop_1\<close>, run 3 consumes it and produces \<^verbatim>\<open>iop_2\<close> and \<^verbatim>\<open>iop_3\<close>, run 4 consumes
  \<^verbatim>\<open>iop_3\<close> and produces \<^verbatim>\<open>iop_4\<close>.
\<close>

definition computation :: Store where
  "computation =
     (let st0 = snd (create_component empty_store ''test_component'' ''test_description''
                       ''shreya'' []);
          st1 = log_run st0 ''test_component'' 1 2 [] [iop ''iop_1''];
          st2 = log_run st1 ''test_component'' 3 4 [] [iop ''iop_1''];
          st3 = log_run st2 ''test_component'' 5 6 [iop ''iop_1'']
                  [iop ''iop_2'', iop ''iop_3''];
          st4 = log_run st3 ''test_component'' 7 8 [iop ''iop_3''] [iop ''iop_4'']
      in st4)"

text \<open>The persisted run of a given identity, for naming the runs of a history.\<close>

definition run_of :: "Store \<Rightarrow> nat \<Rightarrow> ComponentRun option" where
  "run_of st i = find (\<lambda>r. run_id r = Some i) (component_runs st)"

text \<open>Two runs of one component produce \<^verbatim>\<open>X\<close>, at times 1 and 3.\<close>

definition two_producers :: Store where
  "two_producers =
     (let st0 = snd (create_component empty_store ''producer'' ''writes X'' ''shreya'' []);
          st1 = log_run st0 ''producer'' 1 2 [] [iop ''X'']
      in log_run st1 ''producer'' 3 4 [] [iop ''X''])"

text \<open>
  A malformed history: a committed run that consumes its own output has its dependencies
  resolved once more and is committed again.
\<close>

definition self_consumer :: Store where
  "self_consumer =
     (case commit_component_run empty_store (new_run ''loop'' 1 2 [iop ''X''] [iop ''X'']) of
        (Inl e, st) \<Rightarrow> st
      | (Inr r, st) \<Rightarrow> snd (commit_component_run st (set_dependencies_from_inputs st r)))"


section \<open>Properties\<close>

subsection \<open>Reading and printing numerals\<close>

lemma is_digit_not_space: "is_digit c \<Longrightarrow> \<not> is_space c"
  by (auto simp: is_digit_def is_space_def)

lemma is_digit_not_sign: "is_digit c \<Longrightarrow> c \<noteq> CHR ''-'' \<and> c \<noteq> CHR ''+'' \<and> c \<noteq> CHR ''_''"
  by (auto simp: is_digit_def)

lemma dropWhile_space_digits: "list_all is_digit s \<Longrightarrow> dropWhile is_space s = s"
  by (cases s) (auto simp: is_digit_not_space)

lemma strip_digits: "list_all is_digit s \<Longrightarrow> strip s = s"
proof -
  assume a: "list_all is_digit s"
  then have "list_all is_digit (rev s)" by (simp add: list_all_iff)
  with a show ?thesis by (simp add: strip_def dropWhile_space_digits)
qed

lemma grouped_digits_decimal: "s \<noteq> [] \<Longrightarrow> list_all is_digit s \<Longrightarrow> grouped_digits s"
  by (induction s rule: grouped_digits.induct) (auto simp: is_digit_not_sign)

lemma filter_underscore_digits: "list_all is_digit s \<Longrightarrow> filter (\<lambda>c. c \<noteq> CHR ''_'') s = s"
  by (induction s) (auto simp: is_digit_not_sign)

lemma py_int_decimal: "decimal s \<Longrightarrow> py_int s = Inr (int (digits_val s))"
proof -
  assume d: "decimal s"
  then obtain c t where s: "s = c # t" by (cases s) (auto simp: decimal_def)
  from d s have c: "is_digit c" by (simp add: decimal_def)
  from d have b: "int_of_body s = Inr (digits_val s)"
    by (simp add: int_of_body_def decimal_def grouped_digits_decimal filter_underscore_digits)
  from d have "strip s = s" by (simp add: decimal_def strip_digits)
  with s c b show ?thesis
    using is_digit_not_sign[OF c] by (simp add: py_int_def)
qed

lemma int_keys_decimal:
  "list_all (\<lambda>p. decimal (iop_name p)) ps \<Longrightarrow>
   int_keys ps = Inr (map (\<lambda>p. (int (digits_val (iop_name p)), p)) ps)"
  by (induction ps) (auto simp: py_int_decimal)

lemma max_by_key_mem: "max_by_key best kps \<in> set (best # kps)"
  by (induction best kps rule: max_by_key.induct) auto

lemma max_by_key_fold: "fst (max_by_key best kps) = fold max (map fst kps) (fst best)"
  by (induction best kps rule: max_by_key.induct) (auto simp: max_def)

lemma max_by_key_Max: "fst (max_by_key best kps) = Max (set (map fst (best # kps)))"
  by (simp only: max_by_key_fold Max.set_eq_fold list.map)


lemma keyed_member:
  "kp \<in> set (map (\<lambda>p. (f p, p)) ps) \<Longrightarrow> fst kp = f (snd kp) \<and> snd kp \<in> set ps"
  by auto

lemma start_index_decimal:
  assumes "list_all (\<lambda>p. decimal (iop_name p)) res"
  shows "start_index res =
    Inr (if res = [] then 0
         else Max (set (map (\<lambda>p. int (digits_val (iop_name p))) res)) + 1)"
proof (cases res)
  case Nil
  then show ?thesis by (simp add: start_index_def)
next
  case (Cons p ps)
  let ?f = "\<lambda>p. int (digits_val (iop_name p))"
  let ?m = "max_by_key (?f p, p) (map (\<lambda>p. (?f p, p)) ps)"
  have keys: "int_keys res = Inr ((?f p, p) # map (\<lambda>p. (?f p, p)) ps)"
    using int_keys_decimal[OF assms] Cons by simp
  have "?m \<in> set (map (\<lambda>p. (?f p, p)) res)"
    using max_by_key_mem[of "(?f p, p)" "map (\<lambda>p. (?f p, p)) ps"] Cons by simp
  then have m: "fst ?m = ?f (snd ?m)" "snd ?m \<in> set res"
    using keyed_member[of ?m ?f res] by blast+
  from m(2) assms have "decimal (iop_name (snd ?m))"
    by (simp add: list_all_iff)
  then have "py_int (iop_name (snd ?m)) = Inr (fst ?m)"
    using m(1) by (simp add: py_int_decimal)
  moreover have "fst ?m = Max (set (map ?f res))"
    using max_by_key_Max[of "(?f p, p)" "map (\<lambda>p. (?f p, p)) ps"] Cons
    by (simp add: comp_def)
  ultimately show ?thesis
    using keys Cons by (simp add: start_index_def)
qed

lemma digit_char_digit: "n < 10 \<Longrightarrow> is_digit (digit_char n) \<and> digit_val (digit_char n) = n"
proof -
  assume small: "n < 10"
  have "list_all (\<lambda>k. is_digit (digit_char k) \<and> digit_val (digit_char k) = k) [0 ..< 10]"
    by code_simp
  with small show ?thesis by (simp add: list_all_iff)
qed

lemma digits_val_snoc: "digits_val (s @ [c]) = 10 * digits_val s + digit_val c"
  by (simp add: digits_val_def)

lemma str_nat_decimal: "decimal (str_nat n) \<and> digits_val (str_nat n) = n"
proof (induction n rule: str_nat.induct)
  case (1 n)
  show ?case
  proof (cases "n < 10")
    case True
    then show ?thesis
      using digit_char_digit[of n] by (simp add: decimal_def digits_val_def)
  next
    case False
    have d: "n mod 10 < 10" by simp
    from False 1 have ih: "decimal (str_nat (n div 10))" "digits_val (str_nat (n div 10)) = n div 10"
      by simp_all
    have "str_nat n = str_nat (n div 10) @ [digit_char (n mod 10)]"
      using False by (subst str_nat.simps) simp
    then show ?thesis
      using ih digit_char_digit[OF d] by (simp add: decimal_def digits_val_snoc del: str_nat.simps)
  qed
qed

lemma py_int_py_str: "0 \<le> i \<Longrightarrow> decimal (py_str i) \<and> py_int (py_str i) = Inr i"
  using str_nat_decimal[of "nat i"] by (simp add: py_str_def py_int_decimal)

subsection \<open>Fresh output identifiers\<close>

text \<open>
  Claim C6. When the name of every endpoint pointer is a decimal numeral,
  \<^verbatim>\<open>create_output_ids(count)\<close> returns the decimal strings of the \<open>count\<close> consecutive
  numbers that start one past the greatest number named by an endpoint pointer, and at 0
  when there is no endpoint pointer. Each returned string is a decimal numeral that reads
  back as its number. With endpoint pointers \<^verbatim>\<open>"0"\<close> to \<^verbatim>\<open>"4"\<close> and count 3 the result is
  \<^verbatim>\<open>["5","6","7"]\<close>; with no pointers it is \<^verbatim>\<open>["0","1","2"]\<close>.
\<close>

theorem create_output_ids_block:
  "(list_all (\<lambda>p. decimal (iop_name p))
      (filter (\<lambda>p. pointer_type p = ENDPOINT) (io_pointers st)) \<longrightarrow>
      fst (create_output_ids st n) =
        Inr (map py_str [next_free st .. next_free st + n - 1])
      \<and> list_all (\<lambda>i. decimal (py_str i) \<and> py_int (py_str i) = Inr i)
           [next_free st .. next_free st + n - 1])
   \<and> fst (create_output_ids (endpoint_store [''0'', ''1'', ''2'', ''3'', ''4'']) 3)
       = Inr [''5'', ''6'', ''7'']
   \<and> fst (create_output_ids empty_store 3) = Inr [''0'', ''1'', ''2'']"
proof (intro conjI impI)
  let ?res = "filter (\<lambda>p. pointer_type p = ENDPOINT) (io_pointers st)"
  assume a: "list_all (\<lambda>p. decimal (iop_name p)) ?res"
  have nf: "start_index ?res = Inr (next_free st)"
    using start_index_decimal[OF a] by (simp add: next_free_def endpoint_numbers_def)
  then show "fst (create_output_ids st n) =
      Inr (map py_str [next_free st .. next_free st + n - 1])"
    by (simp add: create_output_ids_def py_range_def)
  have pos: "0 \<le> next_free st"
  proof (cases "endpoint_numbers st = []")
    case True
    then show ?thesis by (simp add: next_free_def)
  next
    case False
    then obtain x where "x \<in> set (endpoint_numbers st)" by (cases "endpoint_numbers st") auto
    moreover from this have "0 \<le> x" by (auto simp: endpoint_numbers_def)
    ultimately have "0 \<le> Max (set (endpoint_numbers st))"
      by (meson List.finite_set Max_ge order_trans)
    with False show ?thesis by (simp add: next_free_def)
  qed
  then show "list_all (\<lambda>i. decimal (py_str i) \<and> py_int (py_str i) = Inr i)
         [next_free st .. next_free st + n - 1]"
    using py_int_py_str by (simp add: list_all_iff)
next
  show "fst (create_output_ids (endpoint_store [''0'', ''1'', ''2'', ''3'', ''4'']) 3)
       = Inr [''5'', ''6'', ''7'']"
    by code_simp
next
  show "fst (create_output_ids empty_store 3) = Inr [''0'', ''1'', ''2'']"
    by code_simp
qed

theorem create_output_ids_block_witness:
  "list_all (\<lambda>p. decimal (iop_name p))
      (filter (\<lambda>p. pointer_type p = ENDPOINT) (io_pointers (endpoint_store [''3'', ''10'', ''7''])))
   \<and> fst (create_output_ids (endpoint_store [''3'', ''10'', ''7'']) 2) = Inr [''11'', ''12'']"
proof -
  let ?st = "endpoint_store [''3'', ''10'', ''7'']"
  have h: "list_all (\<lambda>p. decimal (iop_name p))
      (filter (\<lambda>p. pointer_type p = ENDPOINT) (io_pointers ?st))"
    by code_simp
  have v: "map py_str [next_free ?st .. next_free ?st + 2 - 1] = [''11'', ''12'']"
    by code_simp
  from create_output_ids_block[of ?st 2] h
  have "fst (create_output_ids ?st 2) = Inr (map py_str [next_free ?st .. next_free ?st + 2 - 1])"
    by blast
  with h v show ?thesis by simp
qed

subsection \<open>Reading without writing\<close>

text \<open>
  Claim C10. \<^verbatim>\<open>create_output_ids\<close> only reads the store: in every store the store after
  the call is the store before it, whether the call returns or raises, so a second call
  with the same count returns the same list and leaves the store as it was.
\<close>

theorem create_output_ids_reads_only:
  "snd (create_output_ids st n) = st
   \<and> create_output_ids (snd (create_output_ids st n)) n = create_output_ids st n"
proof -
  have "snd (create_output_ids st n) = st"
    by (simp add: create_output_ids_def Let_def split: sum.splits)
  then show ?thesis by simp
qed

subsection \<open>The dependency walk\<close>

lemma for_each_mono:
  assumes "\<And>x s s'. x \<in> set xs \<Longrightarrow> body x s = Some s' \<Longrightarrow> body' x s = Some s'"
  shows "for_each body xs s = Some r \<Longrightarrow> for_each body' xs s = Some r"
  using assms
proof (induction xs arbitrary: s)
  case Nil
  then show ?case by simp
next
  case (Cons x xs)
  from Cons.prems(1) obtain s1 where b: "body x s = Some s1" and rest: "for_each body xs s1 = Some r"
    by (auto split: option.splits)
  from b Cons.prems(2) have "body' x s = Some s1" by simp
  moreover have "for_each body' xs s1 = Some r"
    using Cons.IH[OF rest] Cons.prems(2) by simp
  ultimately show ?case by simp
qed

lemma for_each_total:
  assumes "\<And>x s. x \<in> set xs \<Longrightarrow> \<exists>s'. body x s = Some s'"
  shows "\<exists>s'. for_each body xs s = Some s'"
  using assms
proof (induction xs arbitrary: s)
  case Nil
  then show ?case by simp
next
  case (Cons x xs)
  from Cons.prems obtain s1 where b: "body x s = Some s1" by fastforce
  from Cons.IH[of s1] Cons.prems obtain s2 where "for_each body xs s1 = Some s2" by fastforce
  with b show ?case by simp
qed

lemma for_each_ran:
  "for_each body xs s = Some r \<Longrightarrow> x \<in> set xs \<Longrightarrow> \<exists>s0 s1. body x s0 = Some s1"
proof (induction xs arbitrary: s)
  case Nil
  then show ?case by simp
next
  case (Cons y ys)
  from Cons.prems(1) obtain s1 where b: "body y s = Some s1" and rest: "for_each body ys s1 = Some r"
    by (auto split: option.splits)
  show ?case
  proof (cases "x = y")
    case True
    with b show ?thesis by blast
  next
    case False
    with Cons.prems(2) have "x \<in> set ys" by simp
    from Cons.IH[OF rest this] show ?thesis .
  qed
qed

lemma traverse_mono:
  "traverse f st n d nl = Some r \<Longrightarrow> f \<le> g \<Longrightarrow> traverse g st n d nl = Some r"
proof (induction f arbitrary: g n d nl r)
  case 0
  then show ?case by simp
next
  case (Suc f)
  from Suc.prems(2) obtain g' where g: "g = Suc g'" and le: "f \<le> g'"
    by (cases g) auto
  show ?case
  proof (cases "length (run_dependencies st n) = 0")
    case True
    with Suc.prems(1) g show ?thesis by simp
  next
    case False
    with Suc.prems(1) have
      "for_each (\<lambda>neighbor nl. traverse f st neighbor (d + 1) nl)
         (run_dependencies st n) (nl @ [(d, n)]) = Some r"
      by (simp add: Let_def)
    then have
      "for_each (\<lambda>neighbor nl. traverse g' st neighbor (d + 1) nl)
         (run_dependencies st n) (nl @ [(d, n)]) = Some r"
      by (rule for_each_mono[rotated]) (use Suc.IH le in blast)
    with False g show ?thesis by (simp add: Let_def)
  qed
qed

lemma find_Some_mem: "find P xs = Some x \<Longrightarrow> x \<in> set xs"
  by (induction xs) (auto split: if_splits)

lemma run_dependencies_persisted:
  "c \<in> set (run_dependencies st n) \<Longrightarrow> c \<in> set (component_runs st)"
  by (auto simp: run_dependencies_def List.map_filter_def dest: find_Some_mem)

lemma dep_edges_iff:
  "(n, c) \<in> set (dep_edges st) \<longleftrightarrow>
     n \<in> set (component_runs st) \<and> c \<in> set (run_dependencies st n)"
  by (auto simp: dep_edges_def)

lemma uniform_fuel:
  assumes "\<And>c. c \<in> set cs \<Longrightarrow> \<exists>f. \<forall>d nl. \<exists>r. traverse f st c d nl = Some r"
  shows "\<exists>F. \<forall>c \<in> set cs. \<forall>d nl. \<exists>r. traverse F st c d nl = Some r"
  using assms
proof (induction cs)
  case Nil
  then show ?case by simp
next
  case (Cons c cs)
  from Cons.prems obtain f where f: "\<forall>d nl. \<exists>r. traverse f st c d nl = Some r"
    by (meson list.set_intros(1))
  from Cons.IH Cons.prems obtain F where
    F: "\<forall>c \<in> set cs. \<forall>d nl. \<exists>r. traverse F st c d nl = Some r"
    by (meson list.set_intros(2))
  have "\<forall>x \<in> set (c # cs). \<forall>d nl. \<exists>r. traverse (max f F) st x d nl = Some r"
  proof (intro ballI allI)
    fix x d nl
    assume "x \<in> set (c # cs)"
    then consider "x = c" | "x \<in> set cs" by auto
    then show "\<exists>r. traverse (max f F) st x d nl = Some r"
    proof cases
      case 1
      from f obtain r where "traverse f st c d nl = Some r" by blast
      from traverse_mono[OF this, of "max f F"] 1 show ?thesis by simp
    next
      case 2
      with F obtain r where "traverse F st x d nl = Some r" by blast
      from traverse_mono[OF this, of "max f F"] show ?thesis by simp
    qed
  qed
  then show ?case by blast
qed

lemma traverse_step_total:
  assumes "\<And>c. c \<in> set (run_dependencies st n) \<Longrightarrow> \<exists>f. \<forall>d nl. \<exists>r. traverse f st c d nl = Some r"
  shows "\<exists>f. \<forall>d nl. \<exists>r. traverse f st n d nl = Some r"
proof -
  from uniform_fuel[of "run_dependencies st n" st] assms obtain F where
    F: "\<forall>c \<in> set (run_dependencies st n). \<forall>d nl. \<exists>r. traverse F st c d nl = Some r"
    by blast
  have "\<forall>d nl. \<exists>r. traverse (Suc F) st n d nl = Some r"
  proof (intro allI)
    fix d nl
    have "\<exists>r. for_each (\<lambda>neighbor nl. traverse F st neighbor (d + 1) nl)
             (run_dependencies st n) (nl @ [(d, n)]) = Some r"
      by (rule for_each_total) (use F in blast)
    then show "\<exists>r. traverse (Suc F) st n d nl = Some r"
      by (simp add: Let_def)
  qed
  then show ?thesis by blast
qed

lemma traverse_total_persisted:
  assumes "acyclic (set (dep_edges st))"
  shows "n \<in> set (component_runs st) \<Longrightarrow> \<exists>f. \<forall>d nl. \<exists>r. traverse f st n d nl = Some r"
proof -
  have wf: "wf ((set (dep_edges st))\<inverse>)"
    using assms by (simp add: finite_acyclic_wf_converse)
  show "n \<in> set (component_runs st) \<Longrightarrow> \<exists>f. \<forall>d nl. \<exists>r. traverse f st n d nl = Some r"
    using wf
  proof (induction n rule: wf_induct_rule)
    case (less n)
    show ?case
    proof (rule traverse_step_total)
      fix c
      assume c: "c \<in> set (run_dependencies st n)"
      with less.prems have "(c, n) \<in> (set (dep_edges st))\<inverse>"
        by (simp add: dep_edges_iff)
      moreover from c have "c \<in> set (component_runs st)"
        by (rule run_dependencies_persisted)
      ultimately show "\<exists>f. \<forall>d nl. \<exists>r. traverse f st c d nl = Some r"
        by (rule less.IH)
    qed
  qed
qed

lemma traverse_total:
  assumes "acyclic (set (dep_edges st))"
  shows "\<exists>f r. traverse f st n d nl = Some r"
proof -
  have "\<exists>f. \<forall>d nl. \<exists>r. traverse f st n d nl = Some r"
    by (rule traverse_step_total)
       (use traverse_total_persisted[OF assms] run_dependencies_persisted in blast)
  then show ?thesis by blast
qed

lemma traverse_bounds_paths:
  "traverse f st n d nl = Some r \<Longrightarrow> (n, m) \<in> set (dep_edges st) ^^ k \<Longrightarrow> k < f"
proof (induction f arbitrary: n d nl r k)
  case 0
  then show ?case by simp
next
  case (Suc f)
  show ?case
  proof (cases k)
    case 0
    then show ?thesis by simp
  next
    case (Suc j)
    with Suc.prems(2) obtain y where
      step: "(n, y) \<in> set (dep_edges st)" and rest: "(y, m) \<in> set (dep_edges st) ^^ j"
      by (blast dest: relpow_Suc_D2)
    from step have y: "y \<in> set (run_dependencies st n)" by (simp add: dep_edges_iff)
    then have "length (run_dependencies st n) \<noteq> 0" by auto
    with Suc.prems(1) have
      "for_each (\<lambda>neighbor nl. traverse f st neighbor (d + 1) nl)
         (run_dependencies st n) (nl @ [(d, n)]) = Some r"
      by (simp add: Let_def)
    from for_each_ran[OF this y] obtain s0 s1 where
      "traverse f st y (d + 1) s0 = Some s1" by blast
    from Suc.IH[OF this rest] have "j < f" .
    with Suc show ?thesis by simp
  qed
qed

lemma cycle_power: "(c, c) \<in> R ^^ p \<Longrightarrow> (c, c) \<in> R ^^ (p * j)"
proof (induction j)
  case 0
  then show ?case by simp
next
  case (Suc j)
  then have "(c, c) \<in> R ^^ p O R ^^ (p * j)" by blast
  then show ?case by (simp add: relpow_add[symmetric])
qed

lemma cycle_long_paths:
  assumes "(n, c) \<in> R\<^sup>*" and "(c, c) \<in> R\<^sup>+"
  shows "\<exists>k m. K \<le> k \<and> (n, m) \<in> R ^^ k"
proof -
  from assms(1) obtain q where q: "(n, c) \<in> R ^^ q"
    by (blast dest: rtrancl_imp_relpow)
  from assms(2) obtain p where p: "0 < p" "(c, c) \<in> R ^^ p"
    by (auto simp: trancl_power)
  from cycle_power[OF p(2), of K] q have "(n, c) \<in> R ^^ q O R ^^ (p * K)" by blast
  then have "(n, c) \<in> R ^^ (q + p * K)" by (simp add: relpow_add)
  moreover from p(1) have "K \<le> q + p * K" by (cases p) auto
  ultimately show ?thesis by blast
qed

lemma traverse_cycle_never_returns:
  assumes "(n, c) \<in> (set (dep_edges st))\<^sup>*" and "(c, c) \<in> (set (dep_edges st))\<^sup>+"
  shows "traverse f st n d nl = None"
proof (cases "traverse f st n d nl")
  case None
  then show ?thesis .
next
  case (Some r)
  from cycle_long_paths[OF assms, of f] obtain k m where
    "f \<le> k" "(n, m) \<in> set (dep_edges st) ^^ k" by blast
  with traverse_bounds_paths[OF Some this(2)] show ?thesis by simp
qed


lemma ranked_acyclic:
  fixes rank :: "'a \<Rightarrow> nat"
  assumes "list_all (\<lambda>e. rank (snd e) < rank (fst e)) es"
  shows "acyclic (set es)"
proof -
  have "set es \<subseteq> (inv_image less_than rank)\<inverse>"
    using assms by (auto simp: list_all_iff)
  moreover have "acyclic ((inv_image less_than rank)\<inverse>)"
  proof -
    have "wf (inv_image less_than rank)" by (rule wf_inv_image) (rule wf_less_than)
    then have "acyclic (inv_image less_than rank)" by (rule wf_acyclic)
    then show ?thesis by (simp only: acyclic_converse)
  qed
  ultimately show ?thesis by (rule acyclic_subset[rotated])
qed

text \<open>
  Claim C8. The walk of \<^verbatim>\<open>_traverse\<close> returns from every start node when the
  dependency edges of the store are acyclic: some depth of recursion suffices. When a
  run on a cycle can be reached from the start node, the walk does not return: it exceeds
  every bound on the depth of the recursion.
\<close>

theorem traverse_terminates_unless_cycle:
  "(acyclic (set (dep_edges st)) \<longrightarrow>
      (\<exists>fuel res. traverse fuel st node depth node_list = Some res))
   \<and> ((node, c) \<in> (set (dep_edges st))\<^sup>* \<and> (c, c) \<in> (set (dep_edges st))\<^sup>+ \<longrightarrow>
      (\<forall>fuel. traverse fuel st node depth node_list = None))"
  using traverse_total[of st node depth node_list]
    traverse_cycle_never_returns[of node c st _ depth node_list]
  by blast

theorem traverse_terminates_unless_cycle_witness:
  "acyclic (set (dep_edges computation))
   \<and> (\<exists>fuel res. traverse fuel computation (the (run_of computation 4)) 1 [] = Some res)
   \<and> (the (run_of self_consumer 1), the (run_of self_consumer 1))
        \<in> (set (dep_edges self_consumer))\<^sup>*
   \<and> (the (run_of self_consumer 1), the (run_of self_consumer 1))
        \<in> (set (dep_edges self_consumer))\<^sup>+
   \<and> (\<forall>fuel. traverse fuel self_consumer (the (run_of self_consumer 1)) 1 [] = None)"
proof -
  let ?r = "the (run_of self_consumer 1)"
  have "list_all (\<lambda>e. the (run_id (snd e)) < the (run_id (fst e))) (dep_edges computation)"
    by code_simp
  then have a: "acyclic (set (dep_edges computation))"
    by (rule ranked_acyclic)
  have "(?r, ?r) \<in> set (dep_edges self_consumer)"
    by code_simp
  then have c: "(?r, ?r) \<in> (set (dep_edges self_consumer))\<^sup>+"
    by (rule r_into_trancl)
  have r: "(?r, ?r) \<in> (set (dep_edges self_consumer))\<^sup>*"
    by (rule rtrancl.rtrancl_refl)
  from a c r
    traverse_terminates_unless_cycle[where st = computation
      and node = "the (run_of computation 4)" and depth = 1 and node_list = "[]"]
    traverse_terminates_unless_cycle[where st = self_consumer
      and node = ?r and c = ?r and depth = 1 and node_list = "[]"]
  show ?thesis by blast
qed

subsection \<open>Creating a component twice\<close>

lemma get_component_Some_iff:
  "get_component st name \<noteq> None \<longleftrightarrow> name \<in> set (map comp_name (components st))"
proof -
  have "filter (\<lambda>c. comp_name c = name) (components st) \<noteq> [] \<longleftrightarrow>
        name \<in> set (map comp_name (components st))"
    by (auto simp: filter_empty_conv)
  then show ?thesis
    by (auto simp: get_component_def split: list.splits)
qed

lemma get_component_None_filter:
  "get_component st name = None \<Longrightarrow> filter (\<lambda>c. comp_name c = name) (components st) = []"
  by (simp add: get_component_def split: list.splits)

text \<open>
  Claim C7. \<^verbatim>\<open>create_component\<close> with a name that exists returns normally and leaves the
  store as it is. So after a call that created the component, a second call with that
  name, whatever its other arguments, changes nothing: the store holds exactly one
  component of that name, with the description, owner and tags of the first call.
\<close>

theorem create_component_idempotent:
  "(get_component st name \<noteq> None \<longrightarrow>
      create_component st name descr ownr tag_names = (Inr (), st))
   \<and> (get_component st name = None
        \<and> create_component st name descr ownr tag_names = (Inr (), st') \<longrightarrow>
      create_component st' name descr' ownr' tag_names' = (Inr (), st')
      \<and> filter (\<lambda>c. comp_name c = name)
           (components (snd (create_component st' name descr' ownr' tag_names')))
          = [\<lparr>comp_name = name, description = descr, owner = ownr,
               tags = map (\<lambda>t. \<lparr>tag_name = t\<rparr>) tag_names\<rparr>])"
proof -
  let ?c = "\<lparr>comp_name = name, description = descr, owner = ownr,
              tags = map (\<lambda>t. \<lparr>tag_name = t\<rparr>) tag_names\<rparr>"
  have existing: "create_component st name descr ownr tag_names = (Inr (), st)"
    if "get_component st name \<noteq> None"
    using that by (auto simp: create_component_def)
  have fresh: "create_component st' name descr' ownr' tag_names' = (Inr (), st')
      \<and> filter (\<lambda>c. comp_name c = name)
           (components (snd (create_component st' name descr' ownr' tag_names'))) = [?c]"
    if a: "get_component st name = None
      \<and> create_component st name descr ownr tag_names = (Inr (), st')"
  proof -
    from a have comps: "components st' = components st @ [?c]"
      by (auto simp: create_component_def Let_def split: sum.splits)
    then have "name \<in> set (map comp_name (components st'))" by simp
    then have "get_component st' name \<noteq> None"
      by (simp only: get_component_Some_iff)
    then have second: "create_component st' name descr' ownr' tag_names' = (Inr (), st')"
      by (auto simp: create_component_def)
    from a comps have "filter (\<lambda>c. comp_name c = name) (components st') = [?c]"
      by (simp add: get_component_None_filter)
    with second show ?thesis by simp
  qed
  from existing fresh show ?thesis by blast
qed

theorem create_component_idempotent_witness:
  "get_component empty_store ''etl'' = None
   \<and> create_component empty_store ''etl'' ''first'' ''shreya'' [''a'']
       = (Inr (), snd (create_component empty_store ''etl'' ''first'' ''shreya'' [''a'']))
   \<and> get_component (snd (create_component empty_store ''etl'' ''first'' ''shreya'' [''a''])) ''etl''
       \<noteq> None
   \<and> create_component (snd (create_component empty_store ''etl'' ''first'' ''shreya'' [''a'']))
         ''etl'' ''second'' ''other'' [''b'']
       = (Inr (), snd (create_component empty_store ''etl'' ''first'' ''shreya'' [''a'']))
   \<and> components (snd (create_component
         (snd (create_component empty_store ''etl'' ''first'' ''shreya'' [''a'']))
         ''etl'' ''second'' ''other'' [''b'']))
       = [\<lparr>comp_name = ''etl'', description = ''first'', owner = ''shreya'',
            tags = [\<lparr>tag_name = ''a''\<rparr>]\<rparr>]"
proof -
  let ?created = "snd (create_component empty_store ''etl'' ''first'' ''shreya'' [''a''])"
  have h1: "get_component empty_store ''etl'' = None" by code_simp
  have h2: "create_component empty_store ''etl'' ''first'' ''shreya'' [''a''] = (Inr (), ?created)"
    by code_simp
  have h3: "get_component ?created ''etl'' \<noteq> None" by code_simp
  have all: "components ?created = [\<lparr>comp_name = ''etl'', description = ''first'', owner = ''shreya'',
            tags = [\<lparr>tag_name = ''a''\<rparr>]\<rparr>]" by code_simp
  from create_component_idempotent[where st = ?created and name = "''etl''" and descr = "''second''"
      and ownr = "''other''" and tag_names = "[''b'']"] h3
  have again: "create_component ?created ''etl'' ''second'' ''other'' [''b''] = (Inr (), ?created)"
    by blast
  from create_component_idempotent[where st = empty_store and name = "''etl''"
      and descr = "''first''" and ownr = "''shreya''" and tag_names = "[''a'']" and st' = ?created
      and descr' = "''second''" and ownr' = "''other''" and tag_names' = "[''b'']"] h1 h2
  have "create_component ?created ''etl'' ''second'' ''other'' [''b''] = (Inr (), ?created)"
    by blast
  from h1 h2 h3 again all show ?thesis by simp
qed

subsection \<open>History of a component\<close>











subsection \<open>Resolved dependencies\<close>

lemma dependency_query_keeps_every_match:
  assumes "r \<in> set (component_runs st)" and "p \<in> set (outputs r)"
    and "iop_name p \<in> set input_ids"
  shows "r \<in> set (map fst (dependency_query st input_ids))"
proof -
  from assms have "(r, p) \<in> set (output_matches st input_ids)"
    by (auto simp: output_matches_def)
  then have "r \<in> fst ` set (output_matches st input_ids)"
    by (metis fst_conv image_eqI)
  then show ?thesis
    by (simp add: dependency_query_def Let_def comp_def)
qed

text \<open>
  Claim C1, evaluated on the code. Two runs of \<^verbatim>\<open>producer\<close> wrote \<^verbatim>\<open>X\<close>, run 1 at
  time 1 and run 2 at time 3. The query returns both runs, each with the greatest start
  time 3 of its partition in the second column; the resolver drops that column, and a
  later run that consumes \<^verbatim>\<open>X\<close> receives both runs as its dependencies, the stale run 1
  included.
\<close>

theorem set_dependencies_keeps_stale_producer:
  "map (\<lambda>row. (run_id (fst row), start_timestamp (fst row), snd row))
       (dependency_query two_producers [''X''])
     = [(Some 1, Some 1, Some 3), (Some 2, Some 3, Some 3)]
   \<and> dependencies
        (set_dependencies_from_inputs two_producers
           (new_run ''consumer'' 5 6 [iop ''X''] [iop ''Y'']))
     = [1, 2]"
  by code_simp

subsection \<open>Traces\<close>

lemma for_each_extends:
  assumes "\<And>x s s'. x \<in> set xs \<Longrightarrow> body x s = Some s' \<Longrightarrow> \<exists>t. s' = s @ t"
  shows "for_each body xs s = Some r \<Longrightarrow> \<exists>t. r = s @ t"
  using assms
proof (induction xs arbitrary: s)
  case Nil
  then show ?case by simp
next
  case (Cons x xs)
  from Cons.prems(1) obtain s1 where b: "body x s = Some s1" and rest: "for_each body xs s1 = Some r"
    by (auto split: option.splits)
  have "x \<in> set (x # xs)" by simp
  from Cons.prems(2)[OF this b] obtain t1 where t1: "s1 = s @ t1" by blast
  have "\<exists>t. r = s1 @ t"
  proof (rule Cons.IH[OF rest])
    fix y u u'
    assume "y \<in> set xs" and bu: "body y u = Some u'"
    then have "y \<in> set (x # xs)" by simp
    from Cons.prems(2)[OF this bu] show "\<exists>t. u' = u @ t" .
  qed
  then obtain t2 where "r = s1 @ t2" by blast
  with t1 show ?case by simp
qed

lemma traverse_records_node_first:
  "traverse f st n d nl = Some r \<Longrightarrow> \<exists>t. r = nl @ (d, n) # t"
proof (induction f arbitrary: n d nl r)
  case 0
  then show ?case by simp
next
  case (Suc f)
  show ?case
  proof (cases "length (run_dependencies st n) = 0")
    case True
    with Suc.prems have "r = nl @ [(d, n)]" by auto
    then show ?thesis by simp
  next
    case False
    with Suc.prems have
      "for_each (\<lambda>neighbor nl. traverse f st neighbor (d + 1) nl)
         (run_dependencies st n) (nl @ [(d, n)]) = Some r"
      by (simp add: Let_def)
    then have "\<exists>t. r = (nl @ [(d, n)]) @ t"
      by (rule for_each_extends[rotated]) (use Suc.IH in fastforce)
    then show ?thesis by simp
  qed
qed

lemma trace_root_depth: "trace f st output_id = Some (Inr r) \<Longrightarrow> \<exists>root t. r = (1, root) # t"
proof -
  assume a: "trace f st output_id = Some (Inr r)"
  then obtain root where "traverse f st root 1 [] = Some r"
    by (auto simp: trace_def split: option.splits)
  from traverse_records_node_first[OF this] show ?thesis by auto
qed

text \<open>
  Claim C2, evaluated on the code, for the computation of the test suite. The query of
  \<^verbatim>\<open>trace\<close> does not select the producer of \<^verbatim>\<open>iop_4\<close>: it yields the first run of the
  table, run 1, and the trace is that run alone, at depth 1. The walk itself, started at
  run 4 as \<^verbatim>\<open>trace\<close> starts it, records run 4 at depth 1 and run 3 at depth 2, then both
  producers of \<^verbatim>\<open>iop_1\<close> at depth 3. And in no store does a trace begin at depth 0.
\<close>

theorem trace_of_computation:
  "map_option (map_sum id (map (\<lambda>row. (fst row, run_id (snd row)))))
       (trace 4 computation ''iop_4'')
     = Some (Inr [(1, Some 1)])
   \<and> map_option (map (\<lambda>row. (fst row, run_id (snd row))))
       (traverse 4 computation (the (run_of computation 4)) 1 [])
     = Some [(1, Some 4), (2, Some 3), (3, Some 1), (3, Some 2)]
   \<and> trace fuel st output_id \<noteq> Some (Inr ((0, root) # rest))"
proof -
  have "trace fuel st output_id \<noteq> Some (Inr ((0, root) # rest))"
    using trace_root_depth[of fuel st output_id "(0, root) # rest"] by auto
  moreover have "map_option (map_sum id (map (\<lambda>row. (fst row, run_id (snd row)))))
       (trace 4 computation ''iop_4'') = Some (Inr [(1, Some 1)])"
    by code_simp
  moreover have "map_option (map (\<lambda>row. (fst row, run_id (snd row))))
       (traverse 4 computation (the (run_of computation 4)) 1 [])
     = Some [(1, Some 4), (2, Some 3), (3, Some 1), (3, Some 2)]"
    by code_simp
  ultimately show ?thesis by blast
qed

text \<open>
  Claim C4, evaluated on the code. For a name that is no pointer of the store, the query
  yields \<^verbatim>\<open>None\<close> and \<^verbatim>\<open>_traverse\<close> fails with an \<^verbatim>\<open>AttributeError\<close> on it: there is
  no check for a missing producer. For a pointer that exists and that no run lists among
  its outputs, \<^verbatim>\<open>trace\<close> returns a trace, that of the first run of the table.
\<close>

theorem trace_without_producer:
  "trace fuel empty_store ''some_weird_pointer''
     = Some (Inl (AttributeError ''NoneType object has no attribute dependencies''))
   \<and> list_all (\<lambda>r. ''orphan'' \<notin> set (map iop_name (outputs r)))
        (component_runs (snd (get_io_pointer (\<lambda>_. FILE) computation ''orphan'' None)))
   \<and> map_option (map_sum id (map (\<lambda>row. (fst row, run_id (snd row)))))
        (trace 4 (snd (get_io_pointer (\<lambda>_. FILE) computation ''orphan'' None)) ''orphan'')
     = Some (Inr [(1, Some 1)])"
proof -
  have "trace fuel empty_store ''some_weird_pointer''
     = Some (Inl (AttributeError ''NoneType object has no attribute dependencies''))"
    by (simp add: trace_def trace_query_def empty_store_def)
  moreover have "list_all (\<lambda>r. ''orphan'' \<notin> set (map iop_name (outputs r)))
        (component_runs (snd (get_io_pointer (\<lambda>_. FILE) computation ''orphan'' None)))"
    by code_simp
  moreover have "map_option (map_sum id (map (\<lambda>row. (fst row, run_id (snd row)))))
        (trace 4 (snd (get_io_pointer (\<lambda>_. FILE) computation ''orphan'' None)) ''orphan'')
     = Some (Inr [(1, Some 1)])"
    by code_simp
  ultimately show ?thesis by blast
qed

subsection \<open>The commit gate\<close>

lemma commit_incomplete:
  "\<not> success (check_completeness r) \<Longrightarrow>
   commit_component_run st r
     = (Inl (TypeError ''exceptions must derive from BaseException''), st)"
  by (simp add: commit_component_run_def raise_str_def)

lemma commit_complete:
  "success (check_completeness r) \<Longrightarrow> run_id r = None \<Longrightarrow>
   fst (commit_component_run st r) = Inr (r\<lparr>run_id := Some (next_run_id st)\<rparr>)
   \<and> component_runs (snd (commit_component_run st r))
       = component_runs st @ [r\<lparr>run_id := Some (next_run_id st)\<rparr>]"
  by (simp add: commit_component_run_def Let_def)

text \<open>
  Claim C3, evaluated on the code. Committing the empty run fails before anything is
  persisted, and the store is unchanged; but the statement \<^verbatim>\<open>raise(status_dict['msg'])\<close>
  raises a \<^verbatim>\<open>str\<close>, so what the caller receives is Python's \<^verbatim>\<open>TypeError\<close> for that,
  and the message that names the missing fields is lost.
\<close>

theorem commit_incomplete_run_error:
  "commit_component_run st (initialize_empty_component_run ''test_component'')
     = (Inl (TypeError ''exceptions must derive from BaseException''), st)
   \<and> msg (check_completeness (initialize_empty_component_run ''test_component''))
     = ''ComponentRun has no start timestamp. ComponentRun has no end timestamp. ComponentRun has no outputs. ''"
  by (simp add: commit_component_run_def raise_str_def check_completeness_def
      initialize_empty_component_run_def)

subsection \<open>Names of tags\<close>

text \<open>
  Claim C5, evaluated on the code. In a store that holds the tag \<^verbatim>\<open>t\<close>, creating a
  component with the tag name \<^verbatim>\<open>t\<close> does not reuse that tag: \<^verbatim>\<open>create_component\<close>
  builds a new \<^verbatim>\<open>Tag\<close> and the commit tries to insert a second row of the name, which
  the key of the table rejects, so no component is created. \<^verbatim>\<open>add_tags_to_component\<close>
  resolves the same name through \<^verbatim>\<open>get_tag\<close> and succeeds.
\<close>

theorem create_component_existing_tag:
  "tag_table (snd (get_tag empty_store ''t'')) = [\<lparr>tag_name = ''t''\<rparr>]
   \<and> create_component (snd (get_tag empty_store ''t'')) ''c'' ''d'' ''shreya'' [''t'']
     = (Inl (IntegrityError ''duplicate key value violates unique constraint''),
        snd (get_tag empty_store ''t''))
   \<and> fst (add_tags_to_component
            (snd (create_component (snd (get_tag empty_store ''t'')) ''c'' ''d'' ''shreya'' []))
            ''c'' [''t''])
     = Inr ()
   \<and> tag_table (snd (add_tags_to_component
            (snd (create_component (snd (get_tag empty_store ''t'')) ''c'' ''d'' ''shreya'' []))
            ''c'' [''t'']))
     = [\<lparr>tag_name = ''t''\<rparr>]"
  by code_simp

end
